theory Spec2Isabelle
  imports Main "HOL-Library.Word" "HOL-Library.Multiset"
begin

section \<open>Data model\<close>

text \<open>
  The three programs sort a \<^verbatim>\<open>std::array<int, N>\<close> in place. The array is a list, an
  index is a \<^verbatim>\<open>size_t\<close> (64 bits, unsigned, wrapping), an element is an \<^verbatim>\<open>int\<close>
  (32 bits, read as two's complement by \<open>sint\<close>). The source fixes \<open>N = 11\<close>; the
  embedding takes \<open>arr.size()\<close> from the list, so that the loops are the source's loops at
  every length.
\<close>

type_synonym size_t = "64 word"
type_synonym cint = "32 word"

text \<open>
  \<^verbatim>\<open>arr[i]\<close> outside the array is undefined behaviour in C++. The embedding makes it the
  error value \<open>OutOfRange\<close>, at which the run stops. \<open>size_arr\<close> is \<^verbatim>\<open>arr.size()\<close>,
  \<open>at\<close> the read of \<^verbatim>\<open>arr[i]\<close> and \<open>put\<close> the write \<^verbatim>\<open>arr[i] = v\<close>.
\<close>

datatype error = OutOfRange

definition size_arr :: "'a list \<Rightarrow> size_t" where
  "size_arr arr = of_nat (length arr)"

definition at :: "'a list \<Rightarrow> size_t \<Rightarrow> error + 'a" where
  "at arr i = (if unat i < length arr then Inr (arr ! unat i) else Inl OutOfRange)"

definition put :: "'a list \<Rightarrow> size_t \<Rightarrow> 'a \<Rightarrow> error + 'a list" where
  "put arr i v = (if unat i < length arr then Inr (arr[unat i := v]) else Inl OutOfRange)"

text \<open>\<^verbatim>\<open>std::swap(arr[i], arr[j])\<close>: two reads and two writes.\<close>

definition swap :: "'a list \<Rightarrow> size_t \<Rightarrow> size_t \<Rightarrow> error + 'a list" where
  "swap arr i j =
     (case at arr i of Inl e \<Rightarrow> Inl e | Inr a \<Rightarrow>
      case at arr j of Inl e \<Rightarrow> Inl e | Inr b \<Rightarrow>
      case put arr i b of Inl e \<Rightarrow> Inl e | Inr arr' \<Rightarrow> put arr' j a)"

text \<open>
  The loops compare elements and move them, nothing else. Each loop below takes the value
  an element is compared by as a function \<open>key\<close>; the programs are the instance
  \<open>key = sint\<close> on \<open>cint\<close>. Elements that carry more than their key (a value with a tag)
  make the order of equal values observable, which the stability statement needs.
\<close>

section \<open>sorting-bubble-sort.cpp\<close>

text \<open>
  The inner \<^verbatim>\<open>for (size_t i = 0; i < end; i++)\<close>. The state is the array, the flag
  \<open>swapped\<close> and a count of the swaps made so far (a ghost counter: the source does not
  have it).
\<close>

function bubble_for ::
  "('a \<Rightarrow> int) \<Rightarrow> size_t \<Rightarrow> size_t \<Rightarrow> 'a list \<times> bool \<times> nat \<Rightarrow> error + ('a list \<times> bool \<times> nat)"
where
  "bubble_for key i end (arr, swapped, nswaps) =
     (if i < end then
        (case at arr i of Inl e \<Rightarrow> Inl e | Inr a \<Rightarrow>
         case at arr (i + 1) of Inl e \<Rightarrow> Inl e | Inr b \<Rightarrow>
           if key a > key b then
             (case swap arr i (i + 1) of Inl e \<Rightarrow> Inl e
              | Inr arr' \<Rightarrow> bubble_for key (i + 1) end (arr', True, nswaps + 1))
           else bubble_for key (i + 1) end (arr, swapped, nswaps))
      else Inr (arr, swapped, nswaps))"
  by pat_completeness auto

lemma unat_succ_less: "(i :: size_t) < e \<Longrightarrow> unat (i + 1) = Suc (unat i)"
proof -
  assume "i < e"
  then have "unat i < unat e" by (simp add: word_less_nat_alt)
  moreover have "unat e < 2 ^ 64" using unsigned_less [of e] by simp
  ultimately have "unat i + unat (1 :: size_t) < 2 ^ LENGTH(64)" by simp
  then have "unat (i + 1) = unat i + unat (1 :: size_t)" by (simp only: unat_add_lem)
  then show ?thesis by simp
qed

termination bubble_for
  by (relation "measure (\<lambda>(key, i, e, st). unat e - unat i)")
     (auto simp: unat_succ_less word_less_nat_alt)

declare bubble_for.simps [simp del]

lemma bubble_for_swapped:
  "bubble_for key i e (arr, sw, k) = Inr (arr', True, k') \<Longrightarrow> sw \<or> i < e"
  by (subst (asm) bubble_for.simps) (auto split: if_splits)

text \<open>
  The \<^verbatim>\<open>do { ... end--; } while (swapped);\<close> loop, with the swaps and the passes
  counted. A pass that swapped had \<open>0 < end\<close>, so \<open>end--\<close> does not wrap before the loop
  is left: this is the termination argument.
\<close>

function bubble_do ::
  "('a \<Rightarrow> int) \<Rightarrow> size_t \<Rightarrow> 'a list \<times> nat \<times> nat \<Rightarrow> error + ('a list \<times> nat \<times> nat)"
where
  "bubble_do key end (arr, nswaps, npasses) =
     (case bubble_for key 0 end (arr, False, nswaps) of Inl e \<Rightarrow> Inl e
      | Inr (arr', swapped, nswaps') \<Rightarrow>
          if swapped then bubble_do key (end - 1) (arr', nswaps', npasses + 1)
          else Inr (arr', nswaps', npasses + 1))"
  by pat_completeness auto

termination bubble_do
proof (relation "measure (\<lambda>(key, e, st). unat e)", goal_cases)
  case 1
  show ?case by simp
next
  case (2 key e arr nswaps npasses x2 arr' y swapped nswaps')
  then have "bubble_for key 0 e (arr, False, nswaps) = Inr (arr', True, nswaps')" by simp
  then have "0 < e" using bubble_for_swapped by blast
  then have "e \<noteq> 0" by auto
  then show ?case using measure_unat by simp
qed

declare bubble_do.simps [simp del]

text \<open>The body of \<^verbatim>\<open>bubble_sort\<close>: the result is the array, the swaps and the passes.\<close>

definition bubble_sort_by :: "('a \<Rightarrow> int) \<Rightarrow> 'a list \<Rightarrow> error + ('a list \<times> nat \<times> nat)" where
  "bubble_sort_by key arr = bubble_do key (size_arr arr - 1) (arr, 0, 0)"

definition bubble_sort :: "cint list \<Rightarrow> error + cint list" where
  "bubble_sort arr = map_sum id fst (bubble_sort_by sint arr)"

section \<open>sorting-selection-sort.cpp\<close>

text \<open>
  The inner \<^verbatim>\<open>for (size_t j = i + 1; j < arr.size(); j++)\<close>. The source declares
  \<^verbatim>\<open>int min\<close>: storing an index narrows it to 32 bits (\<open>ucast\<close>), using it as an index
  or comparing it with \<open>i\<close> widens it with its sign (\<open>scast\<close>). The comparisons are counted.
\<close>

function selection_min ::
  "('a \<Rightarrow> int) \<Rightarrow> size_t \<Rightarrow> 'a list \<Rightarrow> cint \<times> nat \<Rightarrow> error + (cint \<times> nat)"
where
  "selection_min key j arr (mini, ncmp) =
     (if j < size_arr arr then
        (case at arr j of Inl e \<Rightarrow> Inl e | Inr a \<Rightarrow>
         case at arr (scast mini) of Inl e \<Rightarrow> Inl e | Inr b \<Rightarrow>
           if key a < key b then selection_min key (j + 1) arr (ucast j, ncmp + 1)
           else selection_min key (j + 1) arr (mini, ncmp + 1))
      else Inr (mini, ncmp))"
  by pat_completeness auto

termination selection_min
  by (relation "measure (\<lambda>(key, j, arr, st). unat (size_arr arr) - unat j)")
     (auto simp: unat_succ_less word_less_nat_alt)

declare selection_min.simps [simp del]

text \<open>One iteration of the outer loop: find the minimum, swap it to \<open>i\<close> unless it is there.\<close>

definition selection_body ::
  "('a \<Rightarrow> int) \<Rightarrow> size_t \<Rightarrow> 'a list \<times> nat \<times> nat \<Rightarrow> error + ('a list \<times> nat \<times> nat)"
where
  "selection_body key i st =
     (case st of (arr, ncmp, nswaps) \<Rightarrow>
      case selection_min key (i + 1) arr (ucast i, ncmp) of Inl e \<Rightarrow> Inl e
      | Inr (mini, ncmp') \<Rightarrow>
          if scast mini \<noteq> i then
            (case swap arr i (scast mini) of Inl e \<Rightarrow> Inl e
             | Inr arr' \<Rightarrow> Inr (arr', ncmp', nswaps + 1))
          else Inr (arr, ncmp', nswaps))"

lemma swap_length: "swap arr i j = Inr arr' \<Longrightarrow> length arr' = length arr"
  by (auto simp: swap_def at_def put_def split: if_splits)

lemma selection_body_length:
  "selection_body key i (arr, c, s) = Inr (arr', c', s') \<Longrightarrow> length arr' = length arr"
  by (auto simp: selection_body_def swap_length split: sum.splits prod.splits if_splits)

text \<open>The outer \<^verbatim>\<open>for (size_t i = 0; i < arr.size(); i++)\<close>.\<close>

function selection_for ::
  "('a \<Rightarrow> int) \<Rightarrow> size_t \<Rightarrow> 'a list \<times> nat \<times> nat \<Rightarrow> error + ('a list \<times> nat \<times> nat)"
where
  "selection_for key i (arr, ncmp, nswaps) =
     (if i < size_arr arr then
        (case selection_body key i (arr, ncmp, nswaps) of Inl e \<Rightarrow> Inl e
         | Inr st' \<Rightarrow> selection_for key (i + 1) st')
      else Inr (arr, ncmp, nswaps))"
  by pat_completeness auto

termination selection_for
proof (relation "measure (\<lambda>(key, i, arr, st). unat (size_arr arr) - unat i)", goal_cases)
  case 1
  show ?case by simp
next
  case (2 key i arr ncmp nswaps st')
  obtain arr' c' s' where st': "st' = (arr', c', s')" by (cases st') auto
  with 2 have "length arr' = length arr" using selection_body_length by blast
  with 2 st' show ?case by (simp add: unat_succ_less word_less_nat_alt size_arr_def)
qed

declare selection_for.simps [simp del]

text \<open>The body of \<^verbatim>\<open>selection_sort\<close>: the array, the comparisons and the swaps.\<close>

definition selection_sort_by :: "('a \<Rightarrow> int) \<Rightarrow> 'a list \<Rightarrow> error + ('a list \<times> nat \<times> nat)" where
  "selection_sort_by key arr = selection_for key 0 (arr, 0, 0)"

definition selection_sort :: "cint list \<Rightarrow> error + cint list" where
  "selection_sort arr = map_sum id fst (selection_sort_by sint arr)"

section \<open>insertion-sort.cpp\<close>

text \<open>
  The inner \<^verbatim>\<open>while (j >= 0 && arr[j] > temp)\<close>. \<open>j\<close> is a \<^verbatim>\<open>size_t\<close>: the test
  \<open>0 \<le> j\<close> is kept as written, and \<open>j--\<close> at \<open>0\<close> wraps to \<open>2^64 - 1\<close>. Nothing in the
  loop's text bounds the number of iterations, so the loop is a partial function: \<open>None\<close>
  is a run that never leaves the loop.
\<close>

partial_function (option) insertion_while ::
  "('a \<Rightarrow> int) \<Rightarrow> size_t \<Rightarrow> 'a \<Rightarrow> 'a list \<Rightarrow> (error + ('a list \<times> size_t)) option"
where
  "insertion_while key j temp arr =
     (if 0 \<le> j then
        (case at arr j of Inl e \<Rightarrow> Some (Inl e) | Inr a \<Rightarrow>
           if key a > key temp then
             (case put arr (j + 1) a of Inl e \<Rightarrow> Some (Inl e)
              | Inr arr' \<Rightarrow> insertion_while key (j - 1) temp arr')
           else Some (Inr (arr, j)))
      else Some (Inr (arr, j)))"

declare insertion_while.simps [code]

lemma put_length: "put arr i v = Inr arr' \<Longrightarrow> length arr' = length arr"
  by (auto simp: put_def split: if_splits)

lemma insertion_while_length_aux:
  assumes "insertion_while key j temp arr = Some r"
  shows "\<forall>arr' j'. r = Inr (arr', j') \<longrightarrow> length arr' = length arr"
proof (rule insertion_while.raw_induct
    [where P = "\<lambda>key j temp arr r. \<forall>arr' j'. r = Inr (arr', j') \<longrightarrow> length arr' = length arr",
     OF _ assms], goal_cases)
  case (1 w key j temp arr r)
  show ?case
  proof (cases "at arr j")
    case (Inl e)
    with 1(2) have "r = Inl e" by simp
    then show ?thesis by simp
  next
    case (Inr a)
    show ?thesis
    proof (cases "key temp < key a")
      case False
      with 1(2) Inr have "r = Inr (arr, j)" by simp
      then show ?thesis by simp
    next
      case True
      show ?thesis
      proof (cases "put arr (j + 1) a")
        case (Inl e)
        with 1(2) Inr True have "r = Inl e" by simp
        then show ?thesis by simp
      next
        case shifted: (Inr arr1)
        with 1(2) Inr True have "w key (j - 1) temp arr1 = Some r" by simp
        then have "\<forall>arr' j'. r = Inr (arr', j') \<longrightarrow> length arr' = length arr1" by (rule 1(1))
        with shifted show ?thesis by (simp add: put_length)
      qed
    qed
  qed
qed

lemma insertion_while_length:
  assumes "insertion_while key j temp arr = Some (Inr (arr', j'))"
  shows "length arr' = length arr"
  using insertion_while_length_aux [OF assms] by simp

text \<open>
  The outer \<^verbatim>\<open>for (size_t i = 0; i < arr.size() - 1; i++)\<close>; \<open>arr.size() - 1\<close> is
  computed in \<^verbatim>\<open>size_t\<close>.
\<close>

function insertion_for :: "('a \<Rightarrow> int) \<Rightarrow> size_t \<Rightarrow> 'a list \<Rightarrow> (error + 'a list) option" where
  "insertion_for key i arr =
     (if i < size_arr arr - 1 then
        (case at arr (i + 1) of Inl e \<Rightarrow> Some (Inl e) | Inr temp \<Rightarrow>
         case insertion_while key i temp arr of None \<Rightarrow> None
         | Some (Inl e) \<Rightarrow> Some (Inl e)
         | Some (Inr (arr', j)) \<Rightarrow>
             (case put arr' (j + 1) temp of Inl e \<Rightarrow> Some (Inl e)
              | Inr arr'' \<Rightarrow> insertion_for key (i + 1) arr''))
      else Some (Inr arr))"
  by pat_completeness auto

termination insertion_for
proof (relation "measure (\<lambda>(key, i, arr). unat (size_arr arr - 1) - unat i)", goal_cases)
  case 1
  show ?case by simp
next
  case (2 key i arr temp r1 st arr' j arr'')
  from 2(3,4,5) have "insertion_while key i temp arr = Some (Inr (arr', j))" by simp
  then have "length arr' = length arr" by (rule insertion_while_length)
  moreover from 2(6) have "length arr'' = length arr'" by (rule put_length)
  ultimately have same: "size_arr arr'' = size_arr arr" by (simp add: size_arr_def)
  from 2(1) have "unat i < unat (size_arr arr - 1)" by (simp add: word_less_nat_alt)
  moreover from 2(1) have "unat (i + 1) = Suc (unat i)" by (rule unat_succ_less)
  ultimately show ?case using same by simp
qed

declare insertion_for.simps [simp del]

definition insertion_sort_by :: "('a \<Rightarrow> int) \<Rightarrow> 'a list \<Rightarrow> (error + 'a list) option" where
  "insertion_sort_by key arr = insertion_for key 0 arr"

definition insertion_sort :: "cint list \<Rightarrow> (error + cint list) option" where
  "insertion_sort arr = insertion_sort_by sint arr"

section \<open>Indices and array accesses\<close>

text \<open>
  An index below \<open>2^64\<close> is the \<^verbatim>\<open>size_t\<close> of the same value; reads and writes at such
  an index, in an array written as the elements before it, the element and the rest.
\<close>

lemma unat_of_nat64: "n < 2 ^ 64 \<Longrightarrow> unat (of_nat n :: size_t) = n"
  by (simp add: unat_of_nat)

lemma of_nat_less64: "m < n \<Longrightarrow> n < 2 ^ 64 \<Longrightarrow> (of_nat m :: size_t) < of_nat n"
  by (simp add: word_less_nat_alt unat_of_nat64)

lemma at_append:
  "length pre < 2 ^ 64 \<Longrightarrow> at (pre @ x # rest) (of_nat (length pre)) = Inr x"
  by (simp add: at_def unat_of_nat64)

lemma put_append:
  "length pre < 2 ^ 64 \<Longrightarrow> put (pre @ x # rest) (of_nat (length pre)) v = Inr (pre @ v # rest)"
  by (simp add: put_def unat_of_nat64)

lemma swap_adjacent:
  assumes "Suc (length pre) < 2 ^ 64"
  shows "swap (pre @ x # y # rest) (of_nat (length pre)) (of_nat (length pre) + 1)
           = Inr (pre @ y # x # rest)"
proof -
  have i: "length pre < 2 ^ 64" using assms by simp
  have j: "(of_nat (length pre) + 1 :: size_t) = of_nat (length (pre @ [x]))" by simp
  have "at (pre @ x # y # rest) (of_nat (length pre)) = Inr x" using i by (rule at_append)
  moreover have "at ((pre @ [x]) @ y # rest) (of_nat (length (pre @ [x]))) = Inr y"
    by (rule at_append) (use assms in simp)
  moreover have "put (pre @ x # y # rest) (of_nat (length pre)) y = Inr (pre @ y # y # rest)"
    using i by (rule put_append)
  moreover have "put ((pre @ [y]) @ y # rest) (of_nat (length (pre @ [y]))) x = Inr ((pre @ [y]) @ x # rest)"
    by (rule put_append) (use assms in simp)
  ultimately show ?thesis unfolding swap_def j by simp
qed

section \<open>Bubble sort: the passes\<close>

text \<open>
  One run of the inner loop over a segment of the array, written on lists: \<open>pass\<close> is the
  segment after the run, \<open>pass_swaps\<close> the number of swaps made. The two functions serve
  the proofs only; \<open>bubble_for_pass\<close> shows that the loop of the program computes them.
\<close>

fun pass :: "('a \<Rightarrow> int) \<Rightarrow> 'a list \<Rightarrow> 'a list" where
  "pass key (x # y # zs) =
     (if key y < key x then y # pass key (x # zs) else x # pass key (y # zs))"
| "pass key xs = xs"

fun pass_swaps :: "('a \<Rightarrow> int) \<Rightarrow> 'a list \<Rightarrow> nat" where
  "pass_swaps key (x # y # zs) =
     (if key y < key x then Suc (pass_swaps key (x # zs)) else pass_swaps key (y # zs))"
| "pass_swaps key xs = 0"

lemma length_pass: "length (pass key xs) = length xs"
  by (induction key xs rule: pass.induct) auto

lemma mset_pass: "mset (pass key xs) = mset xs"
  by (induction key xs rule: pass.induct) auto

lemma set_pass: "set (pass key xs) = set xs"
  using mset_pass [of key xs] by (metis set_mset_mset)

lemma pass_Nil_iff: "pass key xs = [] \<longleftrightarrow> xs = []"
  using length_pass [of key xs] by (metis length_0_conv)

lemma pass_swaps_sorted: "pass_swaps key xs = 0 \<longleftrightarrow> sorted (map key xs)"
  by (induction key xs rule: pass.induct) auto

lemma pass_sorted_id: "pass_swaps key xs = 0 \<Longrightarrow> pass key xs = xs"
  by (induction key xs rule: pass.induct) (auto split: if_splits)

lemma pass_last_max: "xs \<noteq> [] \<Longrightarrow> x \<in> set xs \<Longrightarrow> key x \<le> key (last (pass key xs))"
proof (induction key xs arbitrary: x rule: pass.induct)
  case (1 key a b zs)
  show ?case
  proof (cases "key b < key a")
    case True
    then have l: "last (pass key (a # b # zs)) = last (pass key (a # zs))"
      by (simp add: pass_Nil_iff)
    have "key a \<le> key (last (pass key (a # zs)))" using 1(1) [OF True, of a] by simp
    moreover have "y \<in> set zs \<Longrightarrow> key y \<le> key (last (pass key (a # zs)))" for y
      using 1(1) [OF True, of y] by simp
    ultimately show ?thesis using 1(4) True unfolding l by auto
  next
    case False
    then have l: "last (pass key (a # b # zs)) = last (pass key (b # zs))"
      by (simp add: pass_Nil_iff)
    have "key b \<le> key (last (pass key (b # zs)))" using 1(2) [OF False, of b] by simp
    moreover have "y \<in> set zs \<Longrightarrow> key y \<le> key (last (pass key (b # zs)))" for y
      using 1(2) [OF False, of y] by simp
    ultimately show ?thesis using 1(4) False unfolding l by auto
  qed
qed auto


lemma bubble_for_swap_step:
  assumes "i < e" "at arr i = Inr a" "at arr (i + 1) = Inr b" "key b < key a"
    and "swap arr i (i + 1) = Inr arr'"
  shows "bubble_for key i e (arr, sw, k) = bubble_for key (i + 1) e (arr', True, k + 1)"
  by (subst bubble_for.simps) (simp add: assms)

lemma bubble_for_keep_step:
  assumes "i < e" "at arr i = Inr a" "at arr (i + 1) = Inr b" "\<not> key b < key a"
  shows "bubble_for key i e (arr, sw, k) = bubble_for key (i + 1) e (arr, sw, k)"
  by (subst bubble_for.simps) (simp add: assms)

lemma bubble_for_exit: "\<not> i < e \<Longrightarrow> bubble_for key i e (arr, sw, k) = Inr (arr, sw, k)"
  by (subst bubble_for.simps) simp

lemma bubble_for_pass:
  assumes "length (pre @ mid @ post) < 2 ^ 64" and "mid \<noteq> []"
  shows "bubble_for key (of_nat (length pre)) (of_nat (length pre + length mid - 1))
           (pre @ mid @ post, sw, k)
         = Inr (pre @ pass key mid @ post, sw \<or> 0 < pass_swaps key mid, k + pass_swaps key mid)"
  using assms
proof (induction key mid arbitrary: pre sw k rule: pass.induct)
  case (1 key x y zs)
  define i :: size_t where "i = of_nat (length pre)"
  define e :: size_t where "e = of_nat (length pre + length (x # y # zs) - 1)"
  define arr where "arr = pre @ (x # y # zs) @ post"
  from 1(3) have full: "Suc (Suc (length pre + length zs + length post)) < 2 ^ 64" by simp
  then have len: "Suc (Suc (length pre + length zs)) < 2 ^ 64" by simp
  then have less: "i < e" unfolding i_def e_def by (intro of_nat_less64) simp_all
  have ax: "at arr i = Inr x"
    unfolding arr_def i_def using at_append [of pre x "y # zs @ post"] len by simp
  have ay: "at arr (i + 1) = Inr y"
    unfolding arr_def i_def using at_append [of "pre @ [x]" y "zs @ post"] len
    by (simp add: add.commute)
  show ?case
  proof (cases "key y < key x")
    case True
    have sw: "swap arr i (i + 1) = Inr ((pre @ [y]) @ (x # zs) @ post)"
      unfolding arr_def i_def using swap_adjacent [of pre x y "zs @ post"] len by simp
    have "bubble_for key (of_nat (length (pre @ [y]))) (of_nat (length (pre @ [y]) + length (x # zs) - 1))
            ((pre @ [y]) @ (x # zs) @ post, True, k + 1)
          = Inr ((pre @ [y]) @ pass key (x # zs) @ post, True \<or> 0 < pass_swaps key (x # zs),
                 k + 1 + pass_swaps key (x # zs))"
      by (rule 1(1) [OF True]) (use full in simp_all)
    then have "bubble_for key (i + 1) e ((pre @ [y]) @ (x # zs) @ post, True, k + 1)
          = Inr (pre @ pass key (x # y # zs) @ post, sw \<or> 0 < pass_swaps key (x # y # zs),
                 k + pass_swaps key (x # y # zs))"
      unfolding i_def e_def using True by (simp add: add.commute)
    then have "bubble_for key i e (arr, sw, k)
          = Inr (pre @ pass key (x # y # zs) @ post, sw \<or> 0 < pass_swaps key (x # y # zs),
                 k + pass_swaps key (x # y # zs))"
      by (simp only: bubble_for_swap_step [OF less ax ay True sw])
    then show ?thesis unfolding i_def e_def arr_def .
  next
    case False
    have "bubble_for key (of_nat (length (pre @ [x]))) (of_nat (length (pre @ [x]) + length (y # zs) - 1))
            ((pre @ [x]) @ (y # zs) @ post, sw, k)
          = Inr ((pre @ [x]) @ pass key (y # zs) @ post, sw \<or> 0 < pass_swaps key (y # zs),
                 k + pass_swaps key (y # zs))"
      by (rule 1(2) [OF False]) (use full in simp_all)
    then have "bubble_for key (i + 1) e (arr, sw, k)
          = Inr (pre @ pass key (x # y # zs) @ post, sw \<or> 0 < pass_swaps key (x # y # zs),
                 k + pass_swaps key (x # y # zs))"
      unfolding i_def e_def arr_def using False by (simp add: add.commute)
    then have "bubble_for key i e (arr, sw, k)
          = Inr (pre @ pass key (x # y # zs) @ post, sw \<or> 0 < pass_swaps key (x # y # zs),
                 k + pass_swaps key (x # y # zs))"
      by (simp only: bubble_for_keep_step [OF less ax ay False])
    then show ?thesis unfolding i_def e_def arr_def .
  qed
qed (simp_all add: bubble_for_exit)


lemma pass_swaps_length: "0 < pass_swaps key xs \<Longrightarrow> 2 \<le> length xs"
  by (induction key xs rule: pass.induct) auto

lemma bubble_do_pass:
  assumes "length (front @ rear) < 2 ^ 64" and "front \<noteq> []"
  shows "bubble_do key (of_nat (length front - 1)) (front @ rear, k, p) =
           (if 0 < pass_swaps key front
            then bubble_do key (of_nat (length front - 1) - 1)
                   (pass key front @ rear, k + pass_swaps key front, p + 1)
            else Inr (front @ rear, k, p + 1))"
proof -
  define e :: size_t where "e = of_nat (length front - 1)"
  have "bubble_for key (of_nat (length ([] :: 'a list)))
          (of_nat (length ([] :: 'a list) + length front - 1)) ([] @ front @ rear, False, k)
        = Inr ([] @ pass key front @ rear, False \<or> 0 < pass_swaps key front,
               k + pass_swaps key front)"
    by (rule bubble_for_pass) (use assms in simp_all)
  then have run: "bubble_for key 0 e (front @ rear, False, k)
        = Inr (pass key front @ rear, 0 < pass_swaps key front, k + pass_swaps key front)"
    unfolding e_def by simp
  have "bubble_do key e (front @ rear, k, p) =
           (if 0 < pass_swaps key front
            then bubble_do key (e - 1) (pass key front @ rear, k + pass_swaps key front, p + 1)
            else Inr (front @ rear, k, p + 1))"
    by (subst bubble_do.simps) (simp add: run pass_sorted_id)
  then show ?thesis unfolding e_def .
qed

text \<open>
  The invariant of the do-while loop: the part of the array above \<open>end\<close> is sorted and
  holds no element smaller than one at or below \<open>end\<close>. A pass moves a maximum of the
  lower part to \<open>end\<close>; a pass without a swap found the lower part sorted.
\<close>

lemma bubble_do_sorts:
  assumes "length (front @ rear) < 2 ^ 64" and "front \<noteq> []"
    and "sorted (map key rear)"
    and "\<forall>x\<in>set front. \<forall>y\<in>set rear. key x \<le> key y"
  shows "\<exists>arr' k' p'.
           bubble_do key (of_nat (length front - 1)) (front @ rear, k, p) = Inr (arr', k', p')
           \<and> sorted (map key arr') \<and> mset arr' = mset (front @ rear)
           \<and> p < p' \<and> p' \<le> p + length front"
  using assms
proof (induction "length front" arbitrary: front rear k p rule: less_induct)
  case less
  define e :: size_t where "e = of_nat (length front - 1)"
  note step = bubble_do_pass [OF less(2,3), of key k p, folded e_def]
  show ?case
  proof (cases "0 < pass_swaps key front")
    case False
    then have "sorted (map key front)" by (simp add: pass_swaps_sorted)
    with less(4,5) have "sorted (map key (front @ rear))"
      by (auto simp: sorted_append)
    moreover have "bubble_do key e (front @ rear, k, p) = Inr (front @ rear, k, p + 1)"
      using step False by simp
    moreover have "Suc 0 \<le> length front" using less(3) by (cases front) simp_all
    ultimately have "bubble_do key e (front @ rear, k, p) = Inr (front @ rear, k, p + 1)
           \<and> sorted (map key (front @ rear)) \<and> mset (front @ rear) = mset (front @ rear)
           \<and> p < p + 1 \<and> p + 1 \<le> p + length front" by simp
    then show ?thesis unfolding e_def by blast
  next
    case True
    define f where "f = pass key front"
    define front' where "front' = butlast f"
    define rear' where "rear' = last f # rear"
    define e' :: size_t where "e' = of_nat (length front' - 1)"
    have len2: "2 \<le> length front" using True by (rule pass_swaps_length)
    have flen: "length f = length front" by (simp add: f_def length_pass)
    have fset: "set f = set front" by (simp add: f_def set_pass)
    have fne: "f \<noteq> []" using flen len2 by auto
    have split: "f @ rear = front' @ rear'"
      using fne by (simp add: front'_def rear'_def)
    have l': "length front' = length front - 1" by (simp add: front'_def flen)
    have e': "e - 1 = e'"
      unfolding e_def e'_def using len2 by (simp add: l' of_nat_diff)
    have "last f \<in> set front" using fne fset last_in_set by blast
    then have lastle: "\<forall>y\<in>set rear. key (last f) \<le> key y" using less(5) by blast
    have maxf: "\<forall>x\<in>set front. key x \<le> key (last f)"
      using pass_last_max [OF less(3), of _ key] by (simp add: f_def)
    have "set front' \<subseteq> set front"
      using fset in_set_butlastD by (fastforce simp: front'_def)
    then have ord: "\<forall>x\<in>set front'. \<forall>y\<in>set rear'. key x \<le> key y"
      using maxf less(5) by (auto simp: rear'_def)
    have srt: "sorted (map key rear')" using less(4) lastle by (simp add: rear'_def)
    have ne: "front' \<noteq> []" using l' len2 by auto
    have bound: "length (front' @ rear') < 2 ^ 64"
      using less(2) flen split by (metis length_append)
    have "\<exists>arr' k' p'.
           bubble_do key (of_nat (length front' - 1)) (front' @ rear', k + pass_swaps key front, p + 1)
             = Inr (arr', k', p')
           \<and> sorted (map key arr') \<and> mset arr' = mset (front' @ rear')
           \<and> p + 1 < p' \<and> p' \<le> p + 1 + length front'"
      by (rule less(1) [OF _ bound ne srt ord]) (use l' len2 in simp)
    then obtain arr' k' p' where
      run: "bubble_do key e' (front' @ rear', k + pass_swaps key front, p + 1) = Inr (arr', k', p')"
      and res: "sorted (map key arr')" "mset arr' = mset (front' @ rear')"
        "p + 1 < p'" "p' \<le> p + 1 + length front'"
      unfolding e'_def by blast
    have "bubble_do key e (front @ rear, k, p) = Inr (arr', k', p')"
      using step True run by (simp add: e' f_def [symmetric] split)
    moreover have "mset arr' = mset (front @ rear)"
      using res(2) split [symmetric] by (simp add: f_def mset_pass)
    moreover have "p < p'" "p' \<le> p + length front" using res(3,4) l' len2 by simp_all
    ultimately show ?thesis using res(1) unfolding e_def by blast
  qed
qed


lemma size_minus_one: "arr \<noteq> [] \<Longrightarrow> size_arr arr - 1 = of_nat (length arr - 1)"
  by (cases arr) (simp_all add: size_arr_def)

lemma bubble_sort_by_sorts:
  assumes "length arr < 2 ^ 64" and "arr \<noteq> []"
  shows "\<exists>arr' k' p'. bubble_sort_by key arr = Inr (arr', k', p')
           \<and> sorted (map key arr') \<and> mset arr' = mset arr \<and> 0 < p' \<and> p' \<le> length arr"
proof -
  have "\<exists>arr' k' p'.
           bubble_do key (of_nat (length arr - 1)) (arr @ [], 0, 0) = Inr (arr', k', p')
           \<and> sorted (map key arr') \<and> mset arr' = mset (arr @ [])
           \<and> 0 < p' \<and> p' \<le> 0 + length arr"
    by (rule bubble_do_sorts) (use assms in simp_all)
  then show ?thesis
    unfolding bubble_sort_by_def size_minus_one [OF assms(2)] by simp
qed

lemma bubble_sort_by_sorted_input:
  assumes "length arr < 2 ^ 64" and "arr \<noteq> []" and "sorted (map key arr)"
  shows "bubble_sort_by key arr = Inr (arr, 0, 1)"
proof -
  have "pass_swaps key arr = 0" using assms(3) by (simp add: pass_swaps_sorted)
  moreover have "bubble_do key (of_nat (length arr - 1)) (arr @ [], 0, 0) =
           (if 0 < pass_swaps key arr
            then bubble_do key (of_nat (length arr - 1) - 1)
                   (pass key arr @ [], 0 + pass_swaps key arr, 0 + 1)
            else Inr (arr @ [], 0, 0 + 1))"
    by (rule bubble_do_pass) (use assms in simp_all)
  ultimately show ?thesis
    unfolding bubble_sort_by_def size_minus_one [OF assms(2)] by simp
qed

lemma bubble_sort_by_Nil: "bubble_sort_by key [] = Inl OutOfRange"
  unfolding bubble_sort_by_def
  by (subst bubble_do.simps, subst bubble_for.simps) (simp add: size_arr_def at_def word_gt_0)

section \<open>Selection sort: the loops\<close>

text \<open>
  An index below \<open>2^31\<close> survives the narrowing to \<^verbatim>\<open>int\<close> and the widening back.
\<close>

lemma ucast_idx: "m < 2 ^ 64 \<Longrightarrow> ucast (of_nat m :: size_t) = (of_nat m :: cint)"
  by (simp add: unsigned_of_nat take_bit_nat_eq_self)

lemma scast_idx: "m < 2 ^ 31 \<Longrightarrow> scast (of_nat m :: cint) = (of_nat m :: size_t)"
  by (simp add: signed_of_nat signed_take_bit_int_eq_self)

lemma of_nat_inj64: "a < 2 ^ 64 \<Longrightarrow> b < 2 ^ 64 \<Longrightarrow> (of_nat a :: size_t) = of_nat b \<longleftrightarrow> a = b"
  by (simp add: word_of_nat_eq_iff take_bit_nat_eq_self)

lemma of_nat_less_iff64:
  "a < 2 ^ 64 \<Longrightarrow> b < 2 ^ 64 \<Longrightarrow> (of_nat a :: size_t) < of_nat b \<longleftrightarrow> a < b"
  by (simp add: word_less_nat_alt unat_of_nat64)

lemma at_idx: "length arr < 2 ^ 64 \<Longrightarrow> i < length arr \<Longrightarrow> at arr (of_nat i) = Inr (arr ! i)"
  by (simp add: at_def unat_of_nat64)

lemma put_idx:
  "length arr < 2 ^ 64 \<Longrightarrow> i < length arr \<Longrightarrow> put arr (of_nat i) v = Inr (arr[i := v])"
  by (simp add: put_def unat_of_nat64)

lemma swap_idx:
  assumes "length arr < 2 ^ 64" "i < length arr" "j < length arr"
  shows "swap arr (of_nat i) (of_nat j) = Inr (arr[i := arr ! j, j := arr ! i])"
  using assms by (simp add: swap_def at_idx put_idx)


lemma selection_min_exit:
  "\<not> j < size_arr arr \<Longrightarrow> selection_min key j arr (mini, c) = Inr (mini, c)"
  by (subst selection_min.simps) simp

lemma selection_min_lower:
  assumes "j < size_arr arr" "at arr j = Inr a" "at arr (scast mini) = Inr b" "key a < key b"
  shows "selection_min key j arr (mini, c) = selection_min key (j + 1) arr (ucast j, c + 1)"
  by (subst selection_min.simps) (simp add: assms)

lemma selection_min_keep:
  assumes "j < size_arr arr" "at arr j = Inr a" "at arr (scast mini) = Inr b" "\<not> key a < key b"
  shows "selection_min key j arr (mini, c) = selection_min key (j + 1) arr (mini, c + 1)"
  by (subst selection_min.simps) (simp add: assms)

lemma selection_min_spec:
  assumes "length arr \<le> 2 ^ 31" and "j \<le> length arr" and "i \<le> m" and "m < j"
    and "\<forall>k. i \<le> k \<and> k < j \<longrightarrow> key (arr ! m) \<le> key (arr ! k)"
  shows "\<exists>m'. selection_min key (of_nat j) arr (of_nat m, c) = Inr (of_nat m', c + (length arr - j))
           \<and> i \<le> m' \<and> m' < length arr
           \<and> (\<forall>k. i \<le> k \<and> k < length arr \<longrightarrow> key (arr ! m') \<le> key (arr ! k))"
  using assms(2-)
proof (induction "length arr - j" arbitrary: j m c)
  case 0
  then have j: "j = length arr" by simp
  have "\<not> (of_nat j :: size_t) < size_arr arr" by (simp add: j size_arr_def)
  then have "selection_min key (of_nat j) arr (of_nat m, c) = Inr (of_nat m, c)"
    by (rule selection_min_exit)
  with 0 j show ?case by auto
next
  case (Suc d)
  define jw :: size_t where "jw = of_nat j"
  define mw :: cint where "mw = of_nat m"
  from Suc(2) have jlt: "j < length arr" by simp
  have big: "length arr < 2 ^ 64" using assms(1) by simp
  have j31: "j < 2 ^ 31" and m31: "m < 2 ^ 31" using jlt Suc(5) assms(1) by simp_all
  have less: "jw < size_arr arr"
    unfolding jw_def size_arr_def using jlt big by (simp add: of_nat_less_iff64)
  have aj: "at arr jw = Inr (arr ! j)" unfolding jw_def using big jlt by (rule at_idx)
  have sm: "scast mw = (of_nat m :: size_t)" unfolding mw_def using m31 by (rule scast_idx)
  have am: "at arr (scast mw) = Inr (arr ! m)"
    unfolding sm using big Suc(5) jlt by (intro at_idx) simp_all
  have jn: "jw + 1 = of_nat (Suc j)" unfolding jw_def by simp
  have uj: "ucast jw = (of_nat j :: cint)" unfolding jw_def using j31 by (intro ucast_idx) simp
  have d: "d = length arr - Suc j" using Suc(2) by simp
  have cnt: "c + 1 + (length arr - Suc j) = c + (length arr - j)" using jlt by simp
  show ?case
  proof (cases "key (arr ! j) < key (arr ! m)")
    case True
    have inv: "\<forall>k. i \<le> k \<and> k < Suc j \<longrightarrow> key (arr ! j) \<le> key (arr ! k)"
      using Suc(6) True by (auto simp: less_Suc_eq)
    have ij: "i \<le> j" using Suc(4,5) by simp
    have "\<exists>m'. selection_min key (of_nat (Suc j)) arr (of_nat j, c + 1)
              = Inr (of_nat m', c + 1 + (length arr - Suc j))
           \<and> i \<le> m' \<and> m' < length arr
           \<and> (\<forall>k. i \<le> k \<and> k < length arr \<longrightarrow> key (arr ! m') \<le> key (arr ! k))"
      by (rule Suc(1) [OF d _ ij _ inv]) (use jlt in simp_all)
    then have "\<exists>m'. selection_min key (jw + 1) arr (ucast jw, c + 1)
              = Inr (of_nat m', c + (length arr - j))
           \<and> i \<le> m' \<and> m' < length arr
           \<and> (\<forall>k. i \<le> k \<and> k < length arr \<longrightarrow> key (arr ! m') \<le> key (arr ! k))"
      unfolding jn uj cnt .
    then have "\<exists>m'. selection_min key jw arr (mw, c) = Inr (of_nat m', c + (length arr - j))
           \<and> i \<le> m' \<and> m' < length arr
           \<and> (\<forall>k. i \<le> k \<and> k < length arr \<longrightarrow> key (arr ! m') \<le> key (arr ! k))"
      by (simp only: selection_min_lower [OF less aj am True])
    then show ?thesis unfolding jw_def mw_def .
  next
    case False
    have inv: "\<forall>k. i \<le> k \<and> k < Suc j \<longrightarrow> key (arr ! m) \<le> key (arr ! k)"
      using Suc(6) False by (auto simp: less_Suc_eq)
    have "\<exists>m'. selection_min key (of_nat (Suc j)) arr (of_nat m, c + 1)
              = Inr (of_nat m', c + 1 + (length arr - Suc j))
           \<and> i \<le> m' \<and> m' < length arr
           \<and> (\<forall>k. i \<le> k \<and> k < length arr \<longrightarrow> key (arr ! m') \<le> key (arr ! k))"
      by (rule Suc(1) [OF d _ Suc(4) _ inv]) (use jlt Suc(5) in simp_all)
    then have "\<exists>m'. selection_min key (jw + 1) arr (mw, c + 1)
              = Inr (of_nat m', c + (length arr - j))
           \<and> i \<le> m' \<and> m' < length arr
           \<and> (\<forall>k. i \<le> k \<and> k < length arr \<longrightarrow> key (arr ! m') \<le> key (arr ! k))"
      unfolding jn mw_def cnt .
    then have "\<exists>m'. selection_min key jw arr (mw, c) = Inr (of_nat m', c + (length arr - j))
           \<and> i \<le> m' \<and> m' < length arr
           \<and> (\<forall>k. i \<le> k \<and> k < length arr \<longrightarrow> key (arr ! m') \<le> key (arr ! k))"
      by (simp only: selection_min_keep [OF less aj am False])
    then show ?thesis unfolding jw_def mw_def .
  qed
qed


lemma selection_body_spec:
  assumes "length arr \<le> 2 ^ 31" and "i < length arr"
  shows "\<exists>m. i \<le> m \<and> m < length arr
           \<and> (\<forall>k. i \<le> k \<and> k < length arr \<longrightarrow> key (arr ! m) \<le> key (arr ! k))
           \<and> selection_body key (of_nat i) (arr, c, s)
               = Inr (arr[i := arr ! m, m := arr ! i], c + (length arr - Suc i),
                      if m = i then s else s + 1)"
proof -
  define iw :: size_t where "iw = of_nat i"
  have big: "length arr < 2 ^ 64" using assms(1) by simp
  have i31: "i < 2 ^ 31" using assms by simp
  have i1: "iw + 1 = of_nat (Suc i)" unfolding iw_def by simp
  have ui: "ucast iw = (of_nat i :: cint)" unfolding iw_def using i31 by (intro ucast_idx) simp
  have "\<exists>m'. selection_min key (of_nat (Suc i)) arr (of_nat i, c)
              = Inr (of_nat m', c + (length arr - Suc i))
           \<and> i \<le> m' \<and> m' < length arr
           \<and> (\<forall>k. i \<le> k \<and> k < length arr \<longrightarrow> key (arr ! m') \<le> key (arr ! k))"
    by (rule selection_min_spec [OF assms(1)]) (use assms(2) in \<open>auto simp: less_Suc_eq\<close>)
  then obtain m where
    run: "selection_min key (iw + 1) arr (ucast iw, c) = Inr (of_nat m, c + (length arr - Suc i))"
    and m: "i \<le> m" "m < length arr"
      "\<forall>k. i \<le> k \<and> k < length arr \<longrightarrow> key (arr ! m) \<le> key (arr ! k)"
    unfolding i1 ui by blast
  have m31: "m < 2 ^ 31" using m(2) assms(1) by simp
  have sm: "scast (of_nat m :: cint) = (of_nat m :: size_t)" using m31 by (rule scast_idx)
  have neq: "(of_nat m :: size_t) \<noteq> iw \<longleftrightarrow> m \<noteq> i"
    unfolding iw_def using m31 i31 by (subst of_nat_inj64) simp_all
  have sw: "swap arr iw (of_nat m) = Inr (arr[i := arr ! m, m := arr ! i])"
    unfolding iw_def using big assms(2) m(2) by (rule swap_idx)
  have same: "m = i \<Longrightarrow> arr[i := arr ! m, m := arr ! i] = arr" by simp
  have "selection_body key iw (arr, c, s)
          = Inr (arr[i := arr ! m, m := arr ! i], c + (length arr - Suc i),
                 if m = i then s else s + 1)"
    unfolding selection_body_def using same by (simp add: run sm neq sw)
  with m show ?thesis unfolding iw_def by blast
qed

text \<open>
  The invariant of the outer loop after \<open>k\<close> iterations, for the input \<open>arr0\<close>: the array
  is a permutation of the input, its first \<open>k\<close> positions are sorted, they hold the \<open>k\<close>
  smallest values of the input (the first \<open>k\<close> of the sorted input), and no element of
  them is greater than an element after them.
\<close>

definition sel_inv :: "('a \<Rightarrow> int) \<Rightarrow> nat \<Rightarrow> 'a list \<Rightarrow> 'a list \<Rightarrow> bool" where
  "sel_inv key k arr0 arr \<longleftrightarrow>
     length arr = length arr0 \<and> mset arr = mset arr0
     \<and> sorted (map key (take k arr))
     \<and> map key (take k arr) = take k (sort (map key arr0))
     \<and> (\<forall>x\<in>set (take k arr). \<forall>y\<in>set (drop k arr). key x \<le> key y)"

lemma prefix_smallest:
  assumes "mset arr = mset arr0" and "k \<le> length arr"
    and "sorted (map key (take k arr))"
    and "\<forall>x\<in>set (take k arr). \<forall>y\<in>set (drop k arr). key x \<le> key y"
  shows "map key (take k arr) = take k (sort (map key arr0))"
proof -
  let ?xs = "map key (take k arr)" and ?ys = "map key (drop k arr)"
  have "mset (map key arr0) = mset (map key arr)" using assms(1) by simp
  also have "\<dots> = mset (map key (take k arr @ drop k arr))" by simp
  also have "\<dots> = mset (?xs @ sort ?ys)" by (simp del: append_take_drop_id)
  finally have ms: "mset (?xs @ sort ?ys) = mset (map key arr0)" by simp
  have "sorted (?xs @ sort ?ys)"
    using assms(3,4) by (auto simp: sorted_append)
  with ms have "sort (map key arr0) = ?xs @ sort ?ys" by (rule properties_for_sort)
  then show ?thesis using assms(2) by simp
qed

lemma sel_inv_start: "sel_inv key 0 arr arr"
  by (simp add: sel_inv_def)

lemma sel_inv_step:
  assumes inv: "sel_inv key i arr0 arr" and i: "i \<le> m" and m: "m < length arr"
    and least: "\<forall>k. i \<le> k \<and> k < length arr \<longrightarrow> key (arr ! m) \<le> key (arr ! k)"
  shows "sel_inv key (Suc i) arr0 (arr[i := arr ! m, m := arr ! i])"
proof -
  define arr' where "arr' = arr[i := arr ! m, m := arr ! i]"
  have il: "i < length arr" using i m by simp
  have len: "length arr' = length arr" by (simp add: arr'_def)
  have ms: "mset arr' = mset arr" unfolding arr'_def using m il by (rule mset_swap)
  have tk: "take i arr' = take i arr" by (simp add: arr'_def i)
  have at_i: "arr' ! i = arr ! m"
    using il m by (cases "m = i") (simp_all add: arr'_def)
  have tks: "take (Suc i) arr' = take i arr @ [arr ! m]"
    using il len tk at_i by (simp add: take_Suc_conv_app_nth)
  have "mset (take i arr' @ drop i arr') = mset (take i arr @ drop i arr)"
    using ms by simp
  then have "mset (drop i arr') = mset (drop i arr)" by (simp add: tk del: append_take_drop_id)
  then have "set (drop i arr') = set (drop i arr)" by (rule mset_eq_setD)
  moreover have "set (drop (Suc i) arr') \<subseteq> set (drop i arr')"
    by (rule set_drop_subset_set_drop) simp
  ultimately have sub: "set (drop (Suc i) arr') \<subseteq> set (drop i arr)" by simp
  have low: "key (arr ! m) \<le> key y" if "y \<in> set (drop i arr)" for y
  proof -
    from that obtain k where "k < length (drop i arr)" "y = drop i arr ! k"
      by (auto simp: in_set_conv_nth)
    then have "y = arr ! (i + k)" "i + k < length arr" using il by simp_all
    with least show ?thesis by simp
  qed
  have mem: "arr ! m \<in> set (drop i arr)"
  proof -
    have "drop i arr ! (m - i) = arr ! m" using i m by simp
    moreover have "m - i < length (drop i arr)" using i m by simp
    ultimately show ?thesis by (metis nth_mem)
  qed
  from inv have srt: "sorted (map key (take i arr))"
    and ord: "\<forall>x\<in>set (take i arr). \<forall>y\<in>set (drop i arr). key x \<le> key y"
    and len0: "length arr = length arr0" and ms0: "mset arr = mset arr0"
    by (simp_all add: sel_inv_def)
  have srt': "sorted (map key (take (Suc i) arr'))"
    unfolding tks using srt ord mem by (auto simp: sorted_append)
  have ord': "\<forall>x\<in>set (take (Suc i) arr'). \<forall>y\<in>set (drop (Suc i) arr'). key x \<le> key y"
    unfolding tks using ord low sub by auto
  have "map key (take (Suc i) arr') = take (Suc i) (sort (map key arr0))"
    by (rule prefix_smallest [OF _ _ srt' ord']) (use ms ms0 len il in simp_all)
  with srt' ord' len len0 ms ms0 show ?thesis
    unfolding arr'_def [symmetric] sel_inv_def by simp
qed


text \<open>
  The first \<open>k\<close> iterations of the outer loop, from the iteration \<open>0\<close> on: the state in
  which the loop of the program stands when \<open>i = k\<close> (\<open>selection_for_upto\<close>).
\<close>

fun selection_upto ::
  "('a \<Rightarrow> int) \<Rightarrow> nat \<Rightarrow> 'a list \<times> nat \<times> nat \<Rightarrow> error + ('a list \<times> nat \<times> nat)"
where
  "selection_upto key 0 st = Inr st"
| "selection_upto key (Suc k) st =
     (case selection_upto key k st of Inl e \<Rightarrow> Inl e
      | Inr st' \<Rightarrow> selection_body key (of_nat k) st')"

lemma selection_upto_length:
  "selection_upto key k (arr, c0, s0) = Inr (arr', c, s) \<Longrightarrow> length arr' = length arr"
proof (induction k arbitrary: arr' c s)
  case 0
  then show ?case by simp
next
  case (Suc k)
  then obtain a c1 s1 where mid: "selection_upto key k (arr, c0, s0) = Inr (a, c1, s1)"
    and last: "selection_body key (of_nat k) (a, c1, s1) = Inr (arr', c, s)"
    by (auto split: sum.splits)
  from last have "length arr' = length a" by (rule selection_body_length)
  with Suc(1) [OF mid] show ?case by simp
qed

lemma selection_for_exit:
  "\<not> i < size_arr arr \<Longrightarrow> selection_for key i (arr, c, s) = Inr (arr, c, s)"
  by (subst selection_for.simps) simp

lemma selection_for_step:
  "i < size_arr arr \<Longrightarrow> selection_body key i (arr, c, s) = Inr st' \<Longrightarrow>
     selection_for key i (arr, c, s) = selection_for key (i + 1) st'"
  by (subst selection_for.simps) simp

lemma selection_for_upto:
  assumes "length arr < 2 ^ 64" and "k \<le> length arr"
    and "selection_upto key k (arr, c0, s0) = Inr (arr', c, s)"
  shows "selection_for key 0 (arr, c0, s0) = selection_for key (of_nat k) (arr', c, s)"
  using assms(2,3)
proof (induction k arbitrary: arr' c s)
  case 0
  then show ?case by simp
next
  case (Suc k)
  then obtain a c1 s1 where mid: "selection_upto key k (arr, c0, s0) = Inr (a, c1, s1)"
    and last: "selection_body key (of_nat k) (a, c1, s1) = Inr (arr', c, s)"
    by (auto split: sum.splits)
  have la: "length a = length arr" using mid by (rule selection_upto_length)
  have "(of_nat k :: size_t) < size_arr a"
    unfolding size_arr_def la using Suc(2) assms(1) by (subst of_nat_less_iff64) simp_all
  then have "selection_for key (of_nat k) (a, c1, s1) = selection_for key (of_nat k + 1) (arr', c, s)"
    using last by (rule selection_for_step)
  moreover have "selection_for key 0 (arr, c0, s0) = selection_for key (of_nat k) (a, c1, s1)"
    by (rule Suc(1) [OF _ mid]) (use Suc(2) in simp)
  ultimately show ?case by (simp add: add.commute)
qed

lemma selection_upto_spec:
  assumes "length arr \<le> 2 ^ 31" and "k \<le> length arr"
  shows "\<exists>arr' c s. selection_upto key k (arr, 0, 0) = Inr (arr', c, s)
           \<and> sel_inv key k arr arr'
           \<and> 2 * c + k * (k + 1) = 2 * k * length arr
           \<and> s \<le> k \<and> s \<le> length arr - 1"
  using assms(2)
proof (induction k)
  case 0
  show ?case by (simp add: sel_inv_start)
next
  case (Suc k)
  then obtain a c s where mid: "selection_upto key k (arr, 0, 0) = Inr (a, c, s)"
    and inv: "sel_inv key k arr a" and cnt: "2 * c + k * (k + 1) = 2 * k * length arr"
    and sw: "s \<le> k"
    by auto
  have la: "length a = length arr" using inv by (simp add: sel_inv_def)
  have k: "k < length a" using Suc(2) la by simp
  have a31: "length a \<le> 2 ^ 31" using assms(1) la by simp
  obtain m where m: "k \<le> m" "m < length a"
    "\<forall>j. k \<le> j \<and> j < length a \<longrightarrow> key (a ! m) \<le> key (a ! j)"
    and body: "selection_body key (of_nat k) (a, c, s)
                 = Inr (a[k := a ! m, m := a ! k], c + (length a - Suc k),
                        if m = k then s else s + 1)"
    using selection_body_spec [OF a31 k, of key c s] by blast
  define s' where "s' = (if m = k then s else s + 1)"
  have run: "selection_upto key (Suc k) (arr, 0, 0)
               = Inr (a[k := a ! m, m := a ! k], c + (length a - Suc k), s')"
    by (simp add: mid body s'_def)
  have inv': "sel_inv key (Suc k) arr (a[k := a ! m, m := a ! k])"
    using inv m by (rule sel_inv_step)
  have cnt': "2 * (c + (length a - Suc k)) + Suc k * (Suc k + 1) = 2 * Suc k * length arr"
  proof -
    obtain d where d: "length arr = Suc k + d" using Suc(2) le_Suc_ex by blast
    with cnt la show ?thesis by (simp add: algebra_simps)
  qed
  have s1: "s' \<le> Suc k" using sw by (simp add: s'_def)
  have s2: "s' \<le> length arr - 1"
  proof (cases "m = k")
    case True
    then show ?thesis using sw Suc(2) by (simp add: s'_def)
  next
    case False
    with m have "Suc k < length a" by simp
    then show ?thesis using sw la False by (simp add: s'_def)
  qed
  from run inv' cnt' s1 s2 show ?case by blast
qed

lemma selection_sort_by_spec:
  assumes "length arr \<le> 2 ^ 31"
  shows "\<exists>arr' c s. selection_sort_by key arr = Inr (arr', c, s)
           \<and> selection_upto key (length arr) (arr, 0, 0) = Inr (arr', c, s)
           \<and> sorted (map key arr') \<and> mset arr' = mset arr
           \<and> c = length arr * (length arr - 1) div 2 \<and> s \<le> length arr - 1"
proof -
  obtain arr' c s where run: "selection_upto key (length arr) (arr, 0, 0) = Inr (arr', c, s)"
    and inv: "sel_inv key (length arr) arr arr'"
    and cnt: "2 * c + length arr * (length arr + 1) = 2 * length arr * length arr"
    and sw: "s \<le> length arr - 1"
    using selection_upto_spec [OF assms, of "length arr" key] by auto
  have big: "length arr < 2 ^ 64" using assms by simp
  have la: "length arr' = length arr" using inv by (simp add: sel_inv_def)
  have "selection_for key 0 (arr, 0, 0) = selection_for key (of_nat (length arr)) (arr', c, s)"
    using big _ run by (rule selection_for_upto) simp
  also have "\<dots> = Inr (arr', c, s)"
    by (rule selection_for_exit) (simp add: size_arr_def la)
  finally have res: "selection_sort_by key arr = Inr (arr', c, s)"
    by (simp add: selection_sort_by_def)
  have srt: "sorted (map key arr')" "mset arr' = mset arr"
    using inv la by (simp_all add: sel_inv_def)
  have "2 * c = length arr * (length arr - 1)"
    using cnt by (cases "length arr") (simp_all add: algebra_simps)
  then have "c = length arr * (length arr - 1) div 2" by simp
  with res run srt sw show ?thesis by blast
qed

section \<open>Insertion sort: the loops\<close>

lemma insertion_while_oob:
  "at arr j = Inl e \<Longrightarrow> insertion_while key j temp arr = Some (Inl e)"
  by (subst insertion_while.simps) simp

lemma insertion_while_stop:
  "at arr j = Inr a \<Longrightarrow> \<not> key temp < key a \<Longrightarrow>
     insertion_while key j temp arr = Some (Inr (arr, j))"
  by (subst insertion_while.simps) simp

lemma insertion_while_shift:
  "at arr j = Inr a \<Longrightarrow> key temp < key a \<Longrightarrow> put arr (j + 1) a = Inr arr' \<Longrightarrow>
     insertion_while key j temp arr = insertion_while key (j - 1) temp arr'"
  by (subst insertion_while.simps) simp

lemma at_wrapped: "length arr < 2 ^ 64 \<Longrightarrow> at arr (0 - 1) = Inl OutOfRange"
proof -
  assume "length arr < 2 ^ 64"
  moreover have "unat (0 - 1 :: size_t) = 2 ^ 64 - 1" by (simp add: unsigned_minus_1_eq_mask mask_eq_exp_minus_1)
  ultimately show ?thesis by (simp add: at_def)
qed

text \<open>
  The inner loop on an array written as the prefix \<open>pre\<close> it walks down, the slot \<open>h\<close>
  it writes into and the rest. When every element of the prefix is greater than
  \<open>temp\<close>, the loop shifts them all, \<open>j\<close> wraps, and \<open>arr[j]\<close> is out of range.
\<close>

lemma insertion_while_overrun:
  assumes "length (pre @ h # post) < 2 ^ 64" and "\<forall>x\<in>set pre. key temp < key x"
  shows "insertion_while key (of_nat (length pre) - 1) temp (pre @ h # post) = Some (Inl OutOfRange)"
  using assms
proof (induction pre arbitrary: h post rule: rev_induct)
  case Nil
  have "at ([] @ h # post) (0 - 1) = Inl OutOfRange" using Nil(1) by (intro at_wrapped) simp
  then have "insertion_while key (0 - 1) temp ([] @ h # post) = Some (Inl OutOfRange)"
    by (rule insertion_while_oob)
  then show ?case by simp
next
  case (snoc p ps)
  define j :: size_t where "j = of_nat (length ps)"
  define arr where "arr = (ps @ [p]) @ h # post"
  have len: "Suc (Suc (length ps + length post)) < 2 ^ 64" using snoc(2) by simp
  have aj: "at arr j = Inr p"
    unfolding arr_def j_def using at_append [of ps p "h # post"] len by simp
  have lt: "key temp < key p" using snoc(3) by simp
  have pj: "put arr (j + 1) p = Inr (ps @ p # p # post)"
    unfolding arr_def j_def using put_append [of "ps @ [p]" h post p] len
    by (simp add: add.commute)
  have "insertion_while key (of_nat (length ps) - 1) temp (ps @ p # p # post) = Some (Inl OutOfRange)"
    by (rule snoc(1)) (use snoc(2,3) in simp_all)
  then have "insertion_while key (j - 1) temp (ps @ p # p # post) = Some (Inl OutOfRange)"
    unfolding j_def .
  then have "insertion_while key j temp arr = Some (Inl OutOfRange)"
    by (simp only: insertion_while_shift [OF aj lt pj])
  moreover have "(of_nat (length (ps @ [p])) :: size_t) - 1 = j" unfolding j_def by simp
  ultimately show ?case unfolding arr_def by simp
qed

text \<open>
  When some element of the prefix is not greater than \<open>temp\<close>, the loop stops at the last
  such element \<open>p\<close>, having shifted the elements \<open>hi\<close> above it by one.
\<close>

lemma insertion_while_finds:
  assumes "length (lo @ p # hi @ h # post) < 2 ^ 64" and "\<not> key temp < key p"
    and "\<forall>x\<in>set hi. key temp < key x"
  shows "\<exists>h'. insertion_while key (of_nat (length (lo @ p # hi)) - 1) temp (lo @ p # hi @ h # post)
           = Some (Inr (lo @ p # h' # hi @ post, of_nat (length lo)))"
  using assms
proof (induction hi arbitrary: h post rule: rev_induct)
  case Nil
  define j :: size_t where "j = of_nat (length lo)"
  have "at (lo @ p # h # post) j = Inr p"
    unfolding j_def using at_append [of lo p "h # post"] Nil(1) by simp
  then have "insertion_while key j temp (lo @ p # h # post) = Some (Inr (lo @ p # h # post, j))"
    using Nil(2) by (rule insertion_while_stop)
  moreover have "(of_nat (length (lo @ p # [])) :: size_t) - 1 = j" unfolding j_def by simp
  ultimately show ?case unfolding j_def by auto
next
  case (snoc x hs)
  define j :: size_t where "j = of_nat (length (lo @ p # hs))"
  define arr where "arr = lo @ p # (hs @ [x]) @ h # post"
  have len: "Suc (Suc (Suc (length lo + length hs + length post))) < 2 ^ 64"
    using snoc(2) by simp
  have aj: "at arr j = Inr x"
    unfolding arr_def j_def using at_append [of "lo @ p # hs" x "h # post"] len by simp
  have lt: "key temp < key x" using snoc(4) by simp
  have pj: "put arr (j + 1) x = Inr (lo @ p # hs @ x # x # post)"
    unfolding arr_def j_def using put_append [of "lo @ p # hs @ [x]" h post x] len
    by (simp add: add.commute)
  have "\<exists>h'. insertion_while key (of_nat (length (lo @ p # hs)) - 1) temp (lo @ p # hs @ x # x # post)
           = Some (Inr (lo @ p # h' # hs @ x # post, of_nat (length lo)))"
    by (rule snoc(1)) (use snoc(2,3,4) in simp_all)
  then have "\<exists>h'. insertion_while key (j - 1) temp (lo @ p # hs @ x # x # post)
           = Some (Inr (lo @ p # h' # hs @ x # post, of_nat (length lo)))"
    unfolding j_def .
  then have "\<exists>h'. insertion_while key j temp arr
           = Some (Inr (lo @ p # h' # hs @ x # post, of_nat (length lo)))"
    by (simp only: insertion_while_shift [OF aj lt pj])
  moreover have "(of_nat (length (lo @ p # hs @ [x])) :: size_t) - 1 = j" unfolding j_def by simp
  ultimately show ?case unfolding arr_def by simp
qed


lemma insertion_for_exit:
  "\<not> i < size_arr arr - 1 \<Longrightarrow> insertion_for key i arr = Some (Inr arr)"
  by (subst insertion_for.simps) simp

lemma insertion_for_step:
  "i < size_arr arr - 1 \<Longrightarrow> at arr (i + 1) = Inr temp \<Longrightarrow>
     insertion_while key i temp arr = Some (Inr (arr', j)) \<Longrightarrow>
     put arr' (j + 1) temp = Inr arr'' \<Longrightarrow>
     insertion_for key i arr = insertion_for key (i + 1) arr''"
  by (subst insertion_for.simps) simp

lemma insertion_for_fail:
  "i < size_arr arr - 1 \<Longrightarrow> at arr (i + 1) = Inr temp \<Longrightarrow>
     insertion_while key i temp arr = Some (Inl e) \<Longrightarrow>
     insertion_for key i arr = Some (Inl e)"
  by (subst insertion_for.simps) simp

lemma insertion_for_enter:
  assumes "length (pre @ t # ts) < 2 ^ 64" and "pre \<noteq> []"
  shows "(of_nat (length pre - 1) :: size_t) < size_arr (pre @ t # ts) - 1"
    and "at (pre @ t # ts) (of_nat (length pre - 1) + 1) = Inr t"
proof -
  obtain n where n: "length pre = Suc n" using assms(2) by (cases pre) auto
  have "size_arr (pre @ t # ts) - 1 = of_nat (length pre + length ts)"
    by (simp add: size_arr_def)
  moreover have "(of_nat (length pre - 1) :: size_t) < of_nat (length pre + length ts)"
    using assms(1) n by (subst of_nat_less_iff64) simp_all
  ultimately show "(of_nat (length pre - 1) :: size_t) < size_arr (pre @ t # ts) - 1" by simp
  have "(of_nat (length pre - 1) + 1 :: size_t) = of_nat (length pre)" by (simp add: n)
  moreover have "at (pre @ t # ts) (of_nat (length pre)) = Inr t"
    by (rule at_append) (use assms(1) in simp)
  ultimately show "at (pre @ t # ts) (of_nat (length pre - 1) + 1) = Inr t" by simp
qed

lemma insertion_for_overrun:
  assumes "length (pre @ t # ts) < 2 ^ 64" and "pre \<noteq> []"
    and "\<forall>x\<in>set pre. key t < key x"
  shows "insertion_for key (of_nat (length pre - 1)) (pre @ t # ts) = Some (Inl OutOfRange)"
proof -
  obtain n where n: "length pre = Suc n" using assms(2) by (cases pre) auto
  have "insertion_while key (of_nat (length pre) - 1) t (pre @ t # ts) = Some (Inl OutOfRange)"
    using assms(1,3) by (rule insertion_while_overrun)
  then have "insertion_while key (of_nat (length pre - 1)) t (pre @ t # ts) = Some (Inl OutOfRange)"
    by (simp add: n)
  with insertion_for_enter [OF assms(1,2)] show ?thesis by (rule insertion_for_fail)
qed

lemma insertion_for_insert:
  assumes "length (lo @ p # hi @ t # ts) < 2 ^ 64" and "\<not> key t < key p"
    and "\<forall>x\<in>set hi. key t < key x"
  shows "insertion_for key (of_nat (length (lo @ p # hi) - 1)) ((lo @ p # hi) @ t # ts)
         = insertion_for key (of_nat (length (lo @ p # t # hi) - 1)) ((lo @ p # t # hi) @ ts)"
proof -
  define i :: size_t where "i = of_nat (length (lo @ p # hi) - 1)"
  define arr where "arr = (lo @ p # hi) @ t # ts"
  have bound: "length ((lo @ p # hi) @ t # ts) < 2 ^ 64" using assms(1) by simp
  have ne: "lo @ p # hi \<noteq> []" by simp
  have less: "i < size_arr arr - 1" and next_el: "at arr (i + 1) = Inr t"
    unfolding i_def arr_def using insertion_for_enter [OF bound ne] by blast+
  have i_alt: "i = of_nat (length (lo @ p # hi)) - 1" unfolding i_def by simp
  obtain h' where
    "insertion_while key (of_nat (length (lo @ p # hi)) - 1) t (lo @ p # hi @ t # ts)
       = Some (Inr (lo @ p # h' # hi @ ts, of_nat (length lo)))"
    using insertion_while_finds [OF assms] by blast
  then have run: "insertion_while key i t arr
       = Some (Inr ((lo @ [p]) @ h' # hi @ ts, of_nat (length lo)))"
    unfolding i_alt arr_def by simp
  have "put ((lo @ [p]) @ h' # hi @ ts) (of_nat (length (lo @ [p]))) t
          = Inr ((lo @ [p]) @ t # hi @ ts)"
    by (rule put_append) (use assms(1) in simp)
  then have store: "put ((lo @ [p]) @ h' # hi @ ts) (of_nat (length lo) + 1) t
          = Inr ((lo @ p # t # hi) @ ts)"
    by (simp add: add.commute)
  have eq: "i + 1 = of_nat (length (lo @ p # t # hi) - 1)" unfolding i_def by simp
  have "insertion_for key i arr
               = insertion_for key (of_nat (length (lo @ p # t # hi) - 1)) ((lo @ p # t # hi) @ ts)"
    using insertion_for_step [OF less next_el run store] by (simp only: eq)
  then show ?thesis unfolding i_def arr_def .
qed

lemma sorted_insert_right:
  assumes "sorted (map key (lo @ p # hi))" and "\<not> key t < key p"
    and "\<forall>x\<in>set hi. key t < key x"
  shows "sorted (map key (lo @ p # t # hi))"
  using assms by (fastforce simp: sorted_append)

lemma filter_insert_right:
  fixes key :: "'a \<Rightarrow> int"
  assumes "\<forall>x\<in>set hi. key t < key x"
  shows "filter (\<lambda>x. key x = v) ((lo @ p # t # hi) @ ts)
           = filter (\<lambda>x. key x = v) ((lo @ p # hi) @ t # ts)"
proof (cases "key t = v")
  case True
  with assms have "\<forall>x\<in>set hi. key x \<noteq> v" by fastforce
  then have "filter (\<lambda>x. key x = v) hi = []" by (simp add: filter_empty_conv)
  then show ?thesis by simp
next
  case False
  then show ?thesis by simp
qed

lemma hd_insert_right: "hd (lo @ p # t # hi) = hd (lo @ p # hi)"
  by (cases lo) simp_all

lemma insertion_for_sorts:
  assumes "length (pre @ post) < 2 ^ 64" and "pre \<noteq> []" and "sorted (map key pre)"
    and "\<forall>t\<in>set post. key (hd pre) \<le> key t"
  shows "\<exists>ys. insertion_for key (of_nat (length pre - 1)) (pre @ post) = Some (Inr ys)
           \<and> sorted (map key ys) \<and> mset ys = mset (pre @ post)
           \<and> (\<forall>v. filter (\<lambda>x. key x = v) ys = filter (\<lambda>x. key x = v) (pre @ post))"
  using assms
proof (induction post arbitrary: pre)
  case Nil
  have "\<not> (of_nat (length pre - 1) :: size_t) < size_arr (pre @ []) - 1"
    using Nil(2) by (cases pre) (simp_all add: size_arr_def)
  then have "insertion_for key (of_nat (length pre - 1)) (pre @ []) = Some (Inr (pre @ []))"
    by (rule insertion_for_exit)
  with Nil(3) show ?case by simp
next
  case (Cons t ts)
  have "hd pre \<in> set pre" using Cons(3) by simp
  moreover have "\<not> key t < key (hd pre)" using Cons(5) by (simp add: not_less)
  ultimately have "\<exists>x\<in>set pre. \<not> key t < key x" by blast
  then obtain lo p hi where pre: "pre = lo @ p # hi" and p: "\<not> key t < key p"
    and hi: "\<forall>x\<in>set hi. key t < key x"
    using split_list_last_prop [of pre "\<lambda>x. \<not> key t < key x"] by auto
  define pre' where "pre' = lo @ p # t # hi"
  have bound: "length (lo @ p # hi @ t # ts) < 2 ^ 64" using Cons(2) pre by simp
  have step: "insertion_for key (of_nat (length pre - 1)) (pre @ t # ts)
              = insertion_for key (of_nat (length pre' - 1)) (pre' @ ts)"
    unfolding pre pre'_def using bound p hi by (rule insertion_for_insert)
  have srt: "sorted (map key pre')"
    unfolding pre'_def using Cons(4) [unfolded pre] p hi by (rule sorted_insert_right)
  have hd: "hd pre' = hd pre" unfolding pre pre'_def by (rule hd_insert_right)
  have "\<exists>ys. insertion_for key (of_nat (length pre' - 1)) (pre' @ ts) = Some (Inr ys)
           \<and> sorted (map key ys) \<and> mset ys = mset (pre' @ ts)
           \<and> (\<forall>v. filter (\<lambda>x. key x = v) ys = filter (\<lambda>x. key x = v) (pre' @ ts))"
    by (rule Cons(1) [OF _ _ srt]) (use Cons(2,5) pre hd in \<open>simp_all add: pre'_def\<close>)
  then obtain ys where run: "insertion_for key (of_nat (length pre' - 1)) (pre' @ ts) = Some (Inr ys)"
    and res: "sorted (map key ys)" "mset ys = mset (pre' @ ts)"
      "\<forall>v. filter (\<lambda>x. key x = v) ys = filter (\<lambda>x. key x = v) (pre' @ ts)"
    by blast
  have "mset ys = mset (pre @ t # ts)" using res(2) by (simp add: pre pre'_def)
  moreover have "\<forall>v. filter (\<lambda>x. key x = v) ys = filter (\<lambda>x. key x = v) (pre @ t # ts)"
    using res(3) filter_insert_right [OF hi, of _ lo p ts] by (simp add: pre pre'_def)
  ultimately show ?case using step run res(1) by simp
qed

lemma insertion_for_fails:
  assumes "length (pre @ post) < 2 ^ 64" and "pre \<noteq> []" and "sorted (map key pre)"
    and "\<exists>t\<in>set post. key t < key (hd pre)"
  shows "insertion_for key (of_nat (length pre - 1)) (pre @ post) = Some (Inl OutOfRange)"
  using assms
proof (induction post arbitrary: pre)
  case Nil
  then show ?case by simp
next
  case (Cons t ts)
  show ?case
  proof (cases "key t < key (hd pre)")
    case True
    have "\<forall>x\<in>set pre. key (hd pre) \<le> key x"
      using Cons(3,4) by (cases pre) auto
    with True have "\<forall>x\<in>set pre. key t < key x" by fastforce
    with Cons(2,3) show ?thesis by (rule insertion_for_overrun)
  next
    case False
    have "hd pre \<in> set pre" using Cons(3) by simp
    with False have "\<exists>x\<in>set pre. \<not> key t < key x" by blast
    then obtain lo p hi where pre: "pre = lo @ p # hi" and p: "\<not> key t < key p"
      and hi: "\<forall>x\<in>set hi. key t < key x"
      using split_list_last_prop [of pre "\<lambda>x. \<not> key t < key x"] by auto
    define pre' where "pre' = lo @ p # t # hi"
    have bound: "length (lo @ p # hi @ t # ts) < 2 ^ 64" using Cons(2) pre by simp
    have step: "insertion_for key (of_nat (length pre - 1)) (pre @ t # ts)
                = insertion_for key (of_nat (length pre' - 1)) (pre' @ ts)"
      unfolding pre pre'_def using bound p hi by (rule insertion_for_insert)
    have srt: "sorted (map key pre')"
      unfolding pre'_def using Cons(4) [unfolded pre] p hi by (rule sorted_insert_right)
    have hd: "hd pre' = hd pre" unfolding pre pre'_def by (rule hd_insert_right)
    have later: "\<exists>u\<in>set ts. key u < key (hd pre')" using Cons(5) False hd by auto
    have "insertion_for key (of_nat (length pre' - 1)) (pre' @ ts) = Some (Inl OutOfRange)"
      by (rule Cons(1) [OF _ _ srt later]) (use Cons(2) pre in \<open>simp_all add: pre'_def\<close>)
    with step show ?thesis by simp
  qed
qed


lemma insertion_sort_by_Nil: "insertion_sort_by key [] = Some (Inl OutOfRange)"
  unfolding insertion_sort_by_def
  by (subst insertion_for.simps) (simp add: size_arr_def at_def word_gt_0)

lemma insertion_sort_by_sorts:
  assumes "length arr < 2 ^ 64" and "arr \<noteq> []" and "\<forall>t\<in>set arr. key (hd arr) \<le> key t"
  shows "\<exists>ys. insertion_sort_by key arr = Some (Inr ys)
           \<and> sorted (map key ys) \<and> mset ys = mset arr
           \<and> (\<forall>v. filter (\<lambda>x. key x = v) ys = filter (\<lambda>x. key x = v) arr)"
proof -
  obtain x xs where arr: "arr = x # xs" using assms(2) by (cases arr) auto
  have "\<exists>ys. insertion_for key (of_nat (length [x] - 1)) ([x] @ xs) = Some (Inr ys)
           \<and> sorted (map key ys) \<and> mset ys = mset ([x] @ xs)
           \<and> (\<forall>v. filter (\<lambda>x. key x = v) ys = filter (\<lambda>x. key x = v) ([x] @ xs))"
    by (rule insertion_for_sorts) (use assms(1,3) arr in simp_all)
  then show ?thesis by (simp add: insertion_sort_by_def arr)
qed

lemma insertion_sort_by_fails:
  assumes "length arr < 2 ^ 64" and "\<exists>t\<in>set arr. key t < key (hd arr)"
  shows "insertion_sort_by key arr = Some (Inl OutOfRange)"
proof -
  obtain x xs where arr: "arr = x # xs" using assms(2) by (cases arr) auto
  have "insertion_for key (of_nat (length [x] - 1)) ([x] @ xs) = Some (Inl OutOfRange)"
    by (rule insertion_for_fails) (use assms arr in auto)
  then show ?thesis by (simp add: insertion_sort_by_def arr)
qed

section \<open>The three sorts on the program's arrays\<close>

text \<open>The array that every \<^verbatim>\<open>main\<close> of the repository sorts.\<close>

definition main_arr :: "cint list" where
  "main_arr = [1, 5, 99, 14, 56, 4, 78, 100, 45, 87, 1]"

text \<open>
  \<^verbatim>\<open>bubble_sort\<close> on a non-empty array and \<^verbatim>\<open>selection_sort\<close> return the array
  sorted, with the values it had. The bounds are those of the index types: fewer than
  \<open>2^64\<close> elements for a \<^verbatim>\<open>size_t\<close>, at most \<open>2^31\<close> for the \<^verbatim>\<open>int min\<close> of
  \<^verbatim>\<open>selection_sort\<close>.
\<close>

lemma bubble_sort_spec:
  assumes "length arr < 2 ^ 64" and "arr \<noteq> []"
  shows "\<exists>ys. bubble_sort arr = Inr ys \<and> sorted (map sint ys) \<and> mset ys = mset arr"
  using bubble_sort_by_sorts [OF assms, of sint] by (auto simp: bubble_sort_def)

lemma selection_sort_spec:
  assumes "length arr \<le> 2 ^ 31"
  shows "\<exists>ys. selection_sort arr = Inr ys \<and> sorted (map sint ys) \<and> mset ys = mset arr"
  using selection_sort_by_spec [OF assms, of sint] by (auto simp: selection_sort_def)

text \<open>
  With no element, \<^verbatim>\<open>arr.size() - 1\<close> wraps to \<open>2^64 - 1\<close>: \<^verbatim>\<open>bubble_sort\<close> reads
  \<open>arr[0]\<close> and \<^verbatim>\<open>insertion_sort\<close> reads \<open>arr[1]\<close>. The type \<^verbatim>\<open>std::array<int, 11>\<close>
  of the programs has no such array.
\<close>

lemma bubble_sort_Nil: "bubble_sort [] = Inl OutOfRange"
  by (simp add: bubble_sort_def bubble_sort_by_Nil)

lemma insertion_sort_Nil: "insertion_sort [] = Some (Inl OutOfRange)"
  by (simp add: insertion_sort_def insertion_sort_by_Nil)

lemma main_arr_ok:
  "length main_arr < 2 ^ 64" "length main_arr \<le> 2 ^ 31" "main_arr \<noteq> []"
  "\<forall>t\<in>set main_arr. sint (hd main_arr) \<le> sint t"
  by (simp_all add: main_arr_def)

text \<open>The inputs on which \<^verbatim>\<open>insertion_sort\<close> reads out of range.\<close>

lemma insertion_sort_by_out_of_range_iff:
  fixes key :: "'a \<Rightarrow> int"
  assumes "length arr < 2 ^ 64"
  shows "insertion_sort_by key arr = Some (Inl OutOfRange)
           \<longleftrightarrow> arr = [] \<or> (\<exists>t\<in>set arr. key t < key (hd arr))"
proof
  assume run: "insertion_sort_by key arr = Some (Inl OutOfRange)"
  show "arr = [] \<or> (\<exists>t\<in>set arr. key t < key (hd arr))"
  proof (rule ccontr)
    assume "\<not> (arr = [] \<or> (\<exists>t\<in>set arr. key t < key (hd arr)))"
    then have "arr \<noteq> []" and "\<forall>t\<in>set arr. key (hd arr) \<le> key t"
      by (simp_all add: not_less)
    with insertion_sort_by_sorts [OF assms, of key] run show False by auto
  qed
next
  assume "arr = [] \<or> (\<exists>t\<in>set arr. key t < key (hd arr))"
  then show "insertion_sort_by key arr = Some (Inl OutOfRange)"
    using insertion_sort_by_Nil [of key] insertion_sort_by_fails [OF assms, of key] by auto
qed

section \<open>The claims\<close>

text \<open>
  C1. The spec: after any of the three sorts, every adjacent pair of the sequence
  satisfies \<open>s[i] \<le> s[i+1]\<close>. On the array \<open>{5, 1, 99, 14, 56, 4, 78, 100, 45, 87, 1}\<close>
  (the array of \<^verbatim>\<open>main\<close> with its first element replaced) \<^verbatim>\<open>bubble_sort\<close> and
  \<^verbatim>\<open>selection_sort\<close> return the sorted array; \<^verbatim>\<open>insertion_sort\<close>, inserting the \<open>1\<close>
  below the \<open>5\<close>, shifts \<open>arr[0]\<close>, \<open>j--\<close> wraps to \<open>2^64 - 1\<close>, the test \<open>j >= 0\<close> holds
  and \<open>arr[j]\<close> is read out of range: it leaves no sorted array behind.
\<close>

theorem sort_sorted_failing_input:
  "bubble_sort [5, 1, 99, 14, 56, 4, 78, 100, 45, 87, 1]
     = Inr [1, 1, 4, 5, 14, 45, 56, 78, 87, 99, 100]
   \<and> selection_sort [5, 1, 99, 14, 56, 4, 78, 100, 45, 87, 1]
     = Inr [1, 1, 4, 5, 14, 45, 56, 78, 87, 99, 100]
   \<and> sorted (map sint [1, 1, 4, 5, 14, 45, 56, 78, 87, 99, 100 :: cint])
   \<and> insertion_sort [5, 1, 99, 14, 56, 4, 78, 100, 45, 87, 1] = Some (Inl OutOfRange)"
proof -
  have "bubble_sort [5, 1, 99, 14, 56, 4, 78, 100, 45, 87, 1]
          = Inr [1, 1, 4, 5, 14, 45, 56, 78, 87, 99, 100]"
    by code_simp
  moreover have "selection_sort [5, 1, 99, 14, 56, 4, 78, 100, 45, 87, 1]
          = Inr [1, 1, 4, 5, 14, 45, 56, 78, 87, 99, 100]"
    by code_simp
  moreover have "sorted (map sint [1, 1, 4, 5, 14, 45, 56, 78, 87, 99, 100 :: cint])"
    by simp
  moreover have "insertion_sort [5, 1, 99, 14, 56, 4, 78, 100, 45, 87, 1] = Some (Inl OutOfRange)"
    unfolding insertion_sort_def by (rule insertion_sort_by_fails) simp_all
  ultimately show ?thesis by simp
qed

text \<open>
  C2. The spec: after any of the three sorts, the multiset of values is the multiset
  before. On the array \<open>{3, 2, 1, 4, 5, 6, 7, 8, 9, 10, 11}\<close> \<^verbatim>\<open>bubble_sort\<close> and
  \<^verbatim>\<open>selection_sort\<close> return a permutation of it; \<^verbatim>\<open>insertion_sort\<close>, inserting the
  \<open>2\<close> below the \<open>3\<close>, overwrites \<open>arr[1]\<close> with \<open>arr[0]\<close> and then reads
  \<open>arr[2^64 - 1]\<close>: the value \<open>2\<close> is held in \<open>temp\<close> only, and what the array holds
  afterwards is undefined.
\<close>

theorem sort_permutes_failing_input:
  "bubble_sort [3, 2, 1, 4, 5, 6, 7, 8, 9, 10, 11] = Inr [1, 2, 3, 4, 5, 6, 7, 8, 9, 10, 11]
   \<and> selection_sort [3, 2, 1, 4, 5, 6, 7, 8, 9, 10, 11] = Inr [1, 2, 3, 4, 5, 6, 7, 8, 9, 10, 11]
   \<and> mset [1, 2, 3, 4, 5, 6, 7, 8, 9, 10, 11 :: cint] = mset [3, 2, 1, 4, 5, 6, 7, 8, 9, 10, 11]
   \<and> insertion_sort [3, 2, 1, 4, 5, 6, 7, 8, 9, 10, 11] = Some (Inl OutOfRange)"
proof -
  have "bubble_sort [3, 2, 1, 4, 5, 6, 7, 8, 9, 10, 11] = Inr [1, 2, 3, 4, 5, 6, 7, 8, 9, 10, 11]"
    by code_simp
  moreover have "selection_sort [3, 2, 1, 4, 5, 6, 7, 8, 9, 10, 11]
          = Inr [1, 2, 3, 4, 5, 6, 7, 8, 9, 10, 11]"
    by code_simp
  moreover have "mset [1, 2, 3, 4, 5, 6, 7, 8, 9, 10, 11 :: cint]
          = mset [3, 2, 1, 4, 5, 6, 7, 8, 9, 10, 11]"
    by simp
  moreover have "insertion_sort [3, 2, 1, 4, 5, 6, 7, 8, 9, 10, 11] = Some (Inl OutOfRange)"
    unfolding insertion_sort_def by (rule insertion_sort_by_fails) simp_all
  ultimately show ?thesis by simp
qed

text \<open>
  C3. The spec: on every well-formed (fixed-length) input none of the three sorts reads
  or writes outside the array. \<^verbatim>\<open>insertion_sort\<close> does: on the array
  \<open>{2, 1, 3, 4, 5, 6, 7, 8, 9, 10, 11}\<close> the first insertion shifts \<open>arr[0]\<close>, \<open>j--\<close>
  wraps to \<open>2^64 - 1\<close>, the test \<open>j >= 0\<close> holds and \<open>arr[j]\<close> is read out of range.
\<close>

theorem insertion_sort_out_of_range:
  "insertion_sort [2, 1, 3, 4, 5, 6, 7, 8, 9, 10, 11] = Some (Inl OutOfRange)"
  unfolding insertion_sort_def by (rule insertion_sort_by_fails) simp_all


text \<open>
  C5. The spec: on the input \<open>[2, 2, 1]\<close> each of the three sorts gives \<open>[1, 2, 2]\<close>.
  \<^verbatim>\<open>bubble_sort\<close> and \<^verbatim>\<open>selection_sort\<close> do. \<^verbatim>\<open>insertion_sort\<close> inserts the \<open>1\<close>
  below both \<open>2\<close>s, shifts \<open>arr[0]\<close>, and reads \<open>arr[2^64 - 1]\<close>; the same happens on
  the 11-element array that starts with \<open>2, 2, 1\<close>.
\<close>

theorem sort_2_2_1:
  "bubble_sort [2, 2, 1] = Inr [1, 2, 2] \<and> selection_sort [2, 2, 1] = Inr [1, 2, 2]
   \<and> insertion_sort [2, 2, 1] = Some (Inl OutOfRange)
   \<and> insertion_sort [2, 2, 1, 3, 4, 5, 6, 7, 8, 9, 10] = Some (Inl OutOfRange)"
proof -
  have "bubble_sort [2, 2, 1] = Inr [1, 2, 2]" by code_simp
  moreover have "selection_sort [2, 2, 1] = Inr [1, 2, 2]" by code_simp
  moreover have "insertion_sort [2, 2, 1] = Some (Inl OutOfRange)"
    unfolding insertion_sort_def by (rule insertion_sort_by_fails) simp_all
  moreover have "insertion_sort [2, 2, 1, 3, 4, 5, 6, 7, 8, 9, 10] = Some (Inl OutOfRange)"
    unfolding insertion_sort_def by (rule insertion_sort_by_fails) simp_all
  ultimately show ?thesis by simp
qed

text \<open>
  C6. The spec: \<^verbatim>\<open>insertion_sort\<close> is stable on every input. The comparison of the
  source is the strict \<open>arr[j] > temp\<close>, but on the array
  \<open>{4, 4, 2, 2, 6, 6, 1, 1, 5, 5, 3}\<close> the insertion of the first \<open>2\<close> shifts both \<open>4\<close>s,
  \<open>j--\<close> wraps to \<open>2^64 - 1\<close> and \<open>arr[j]\<close> is read out of range: there is no output
  in which the equal elements could be in their input order.
\<close>

theorem insertion_sort_stable_failing_input:
  "insertion_sort [4, 4, 2, 2, 6, 6, 1, 1, 5, 5, 3] = Some (Inl OutOfRange)"
  unfolding insertion_sort_def by (rule insertion_sort_by_fails) simp_all

text \<open>
  C7. The spec: each of the three sorts runs to completion and returns on every finite
  input. On the array \<open>{11, 10, 9, 8, 7, 6, 5, 4, 3, 2, 1}\<close> \<^verbatim>\<open>bubble_sort\<close> returns
  after 11 passes and 55 swaps and \<^verbatim>\<open>selection_sort\<close> after 55 comparisons and 5
  swaps; \<^verbatim>\<open>insertion_sort\<close> does not run to completion: its inner loop, whose guard
  \<open>j >= 0\<close> never fails, leaves the array at \<open>j = 2^64 - 1\<close> in the first insertion.
\<close>

theorem sorts_terminate_failing_input:
  "bubble_sort_by sint [11, 10, 9, 8, 7, 6, 5, 4, 3, 2, 1 :: cint]
     = Inr ([1, 2, 3, 4, 5, 6, 7, 8, 9, 10, 11], 55, 11)
   \<and> selection_sort_by sint [11, 10, 9, 8, 7, 6, 5, 4, 3, 2, 1 :: cint]
     = Inr ([1, 2, 3, 4, 5, 6, 7, 8, 9, 10, 11], 55, 5)
   \<and> insertion_sort [11, 10, 9, 8, 7, 6, 5, 4, 3, 2, 1] = Some (Inl OutOfRange)"
proof -
  have "bubble_sort_by sint [11, 10, 9, 8, 7, 6, 5, 4, 3, 2, 1 :: cint]
          = Inr ([1, 2, 3, 4, 5, 6, 7, 8, 9, 10, 11], 55, 11)"
    by code_simp
  moreover have "selection_sort_by sint [11, 10, 9, 8, 7, 6, 5, 4, 3, 2, 1 :: cint]
          = Inr ([1, 2, 3, 4, 5, 6, 7, 8, 9, 10, 11], 55, 5)"
    by code_simp
  moreover have "insertion_sort [11, 10, 9, 8, 7, 6, 5, 4, 3, 2, 1] = Some (Inl OutOfRange)"
    unfolding insertion_sort_def by (rule insertion_sort_by_fails) simp_all
  ultimately show ?thesis by simp
qed

text \<open>
  C8. On every input that is already sorted, \<^verbatim>\<open>bubble_sort\<close> makes no swap, stops
  after exactly one pass and returns the array as it was. The input is not empty, as
  the arrays of the program are.
\<close>

theorem bubble_sort_sorted_input:
  fixes key :: "'a \<Rightarrow> int"
  assumes "length arr < 2 ^ 64" and "arr \<noteq> []" and "sorted (map key arr)"
  shows "bubble_sort_by key arr = Inr (arr, 0, 1)"
  using assms by (rule bubble_sort_by_sorted_input)

theorem bubble_sort_sorted_input_witness:
  "bubble_sort_by sint [1, 1, 4, 5, 14, 45, 56, 78, 87, 99, 100 :: cint]
     = Inr ([1, 1, 4, 5, 14, 45, 56, 78, 87, 99, 100], 0, 1)"
  using bubble_sort_sorted_input [of "[1, 1, 4, 5, 14, 45, 56, 78, 87, 99, 100 :: cint]" sint]
  by simp

text \<open>
  C9. On an input of length \<open>n\<close>, \<^verbatim>\<open>selection_sort\<close> makes exactly \<open>n (n - 1) / 2\<close>
  comparisons of elements, whatever the order of the input, and at most \<open>n - 1\<close> swaps
  (no swap when \<open>n = 0\<close>: the subtraction is the one of natural numbers). The length is
  at most \<open>2^31\<close>, the range in which an index fits the program's \<^verbatim>\<open>int min\<close>.
\<close>

theorem selection_sort_counts:
  fixes key :: "'a \<Rightarrow> int"
  assumes "length arr \<le> 2 ^ 31"
  shows "\<exists>ys c s. selection_sort_by key arr = Inr (ys, c, s)
           \<and> c = length arr * (length arr - 1) div 2 \<and> s \<le> length arr - 1"
  using selection_sort_by_spec [OF assms, of key] by blast

theorem selection_sort_counts_witness:
  "selection_sort_by sint main_arr = Inr ([1, 1, 4, 5, 14, 45, 56, 78, 87, 99, 100], 55, 8)
   \<and> (55 :: nat) = length main_arr * (length main_arr - 1) div 2
   \<and> (8 :: nat) \<le> length main_arr - 1"
proof -
  have run: "selection_sort_by sint main_arr
               = Inr ([1, 1, 4, 5, 14, 45, 56, 78, 87, 99, 100], 55, 8)"
    unfolding main_arr_def by code_simp
  from selection_sort_counts [OF main_arr_ok(2), of sint] run show ?thesis by auto
qed

text \<open>
  C10. The loop invariant of \<^verbatim>\<open>selection_sort\<close>. \<open>selection_upto key k\<close> is the run of
  the first \<open>k\<close> iterations of the outer loop, and \<^verbatim>\<open>selection_sort\<close> is the run of all
  \<open>n\<close> of them. After the iteration \<open>i\<close> has completed, the
  array is a permutation of the input, its first \<open>i + 1\<close> positions are sorted, they hold
  the \<open>i + 1\<close> smallest values of the input, and none of them is greater than any element
  after them (\<open>sel_inv\<close>); and an iteration \<open>i\<close> started in any state with the invariant
  for \<open>i\<close> runs without error and ends in a state with the invariant for \<open>i + 1\<close>.
\<close>

theorem selection_sort_invariant:
  fixes key :: "'a \<Rightarrow> int"
  assumes "length arr \<le> 2 ^ 31" and "i < length arr"
  shows "selection_sort_by key arr = selection_upto key (length arr) (arr, 0, 0)
       \<and> (\<exists>arr' c s. selection_upto key (Suc i) (arr, 0, 0) = Inr (arr', c, s)
            \<and> sel_inv key (Suc i) arr arr')
       \<and> (\<forall>a c s. sel_inv key i arr a \<longrightarrow>
            (\<exists>a' c' s'. selection_body key (of_nat i) (a, c, s) = Inr (a', c', s')
               \<and> sel_inv key (Suc i) arr a'))"
proof (intro conjI allI impI)
  show "selection_sort_by key arr = selection_upto key (length arr) (arr, 0, 0)"
    using selection_sort_by_spec [OF assms(1), of key] by auto
next
  show "\<exists>arr' c s. selection_upto key (Suc i) (arr, 0, 0) = Inr (arr', c, s)
          \<and> sel_inv key (Suc i) arr arr'"
    using selection_upto_spec [OF assms(1), of "Suc i" key] assms(2) by auto
next
  fix a c s assume inv: "sel_inv key i arr a"
  then have la: "length a = length arr" by (simp add: sel_inv_def)
  have a31: "length a \<le> 2 ^ 31" and ia: "i < length a" using assms la by simp_all
  obtain m where m: "i \<le> m" "m < length a"
    "\<forall>j. i \<le> j \<and> j < length a \<longrightarrow> key (a ! m) \<le> key (a ! j)"
    and body: "selection_body key (of_nat i) (a, c, s)
                 = Inr (a[i := a ! m, m := a ! i], c + (length a - Suc i),
                        if m = i then s else s + 1)"
    using selection_body_spec [OF a31 ia, of key c s] by blast
  have "sel_inv key (Suc i) arr (a[i := a ! m, m := a ! i])"
    using inv m by (rule sel_inv_step)
  with body show "\<exists>a' c' s'. selection_body key (of_nat i) (a, c, s) = Inr (a', c', s')
                    \<and> sel_inv key (Suc i) arr a'"
    by blast
qed

theorem selection_sort_invariant_witness:
  "(\<exists>arr' c s. selection_upto sint 2 ([3, 1, 2 :: cint], 0, 0) = Inr (arr', c, s)
      \<and> sel_inv sint 2 [3, 1, 2] arr')
   \<and> sel_inv sint 1 [3, 1, 2 :: cint] [1, 3, 2]
   \<and> (\<exists>a' c' s'. selection_body sint 1 ([1, 3, 2 :: cint], 0, 0) = Inr (a', c', s')
         \<and> sel_inv sint 2 [3, 1, 2] a')"
proof -
  have len: "length [3, 1, 2 :: cint] \<le> 2 ^ 31" and i: "1 < length [3, 1, 2 :: cint]"
    by simp_all
  have inv: "sel_inv sint 1 [3, 1, 2 :: cint] [1, 3, 2]" by (simp add: sel_inv_def)
  note inst = selection_sort_invariant [OF len i, of sint]
  from inst have after: "\<exists>arr' c s. selection_upto sint (Suc 1) ([3, 1, 2 :: cint], 0, 0)
      = Inr (arr', c, s) \<and> sel_inv sint (Suc 1) [3, 1, 2] arr'"
    by blast
  from inst inv have step: "\<exists>a' c' s'. selection_body sint (of_nat 1) ([1, 3, 2 :: cint], 0, 0)
      = Inr (a', c', s') \<and> sel_inv sint (Suc 1) [3, 1, 2] a'"
    by blast
  have two: "Suc 1 = 2" by simp
  from after step inv show ?thesis unfolding two by simp
qed

end
